theory Spec2Isabelle
  imports Complex_Main
begin

section \<open>Python values and strings\<close>

text \<open>
  The recommender of \<^verbatim>\<open>app.py\<close> is embedded function by function.  A Python
  \<^verbatim>\<open>str\<close> is a \<^typ>\<open>string\<close>; its characters are the code points below 256.
  The argument of \<^verbatim>\<open>normalize_text\<close> goes through \<^verbatim>\<open>str()\<close> first, so it is a
  Python value: a string or \<^verbatim>\<open>None\<close>.
\<close>

datatype pyval = PyNone | PyStr string

fun py_str :: "pyval \<Rightarrow> string" where
  "py_str PyNone = ''None''"
| "py_str (PyStr s) = s"

text \<open>
  \<^verbatim>\<open>str.lower\<close> on the code points below 256: the letters A to Z and the
  accented capitals (192 to 222, the multiplication sign 215 apart) move up by 32.
\<close>

definition is_upper :: "char \<Rightarrow> bool" where
  "is_upper c =
     (let n = (of_char c :: nat)
      in (65 \<le> n \<and> n \<le> 90) \<or> (192 \<le> n \<and> n \<le> 222 \<and> n \<noteq> 215))"

definition lower_char :: "char \<Rightarrow> char" where
  "lower_char c = (if is_upper c then char_of ((of_char c :: nat) + 32) else c)"

definition lower :: "string \<Rightarrow> string" where
  "lower s = map lower_char s"

text \<open>
  The characters that \<^verbatim>\<open>str.strip\<close> removes and that \<^verbatim>\<open>\s\<close> matches in a
  \<^verbatim>\<open>str\<close> pattern: tab to carriage return, the four separators 28 to 31, the space,
  and 133 and 160.
\<close>

definition is_space :: "char \<Rightarrow> bool" where
  "is_space c =
     (let n = (of_char c :: nat)
      in (9 \<le> n \<and> n \<le> 13) \<or> (28 \<le> n \<and> n \<le> 32) \<or> n = 133 \<or> n = 160)"

definition is_az :: "char \<Rightarrow> bool" where
  "is_az c = (let n = (of_char c :: nat) in 97 \<le> n \<and> n \<le> 122)"

definition strip :: "string \<Rightarrow> string" where
  "strip s = rev (dropWhile is_space (rev (dropWhile is_space s)))"

text \<open>\<^verbatim>\<open>re.sub(r"[^a-z\s]", " ", text)\<close>: every other character becomes a space.\<close>

definition sub_non_az :: "string \<Rightarrow> string" where
  "sub_non_az s = map (\<lambda>c. if is_az c \<or> is_space c then c else CHR '' '') s"

text \<open>\<^verbatim>\<open>re.sub(r"\s+", " ", text)\<close>: every maximal run of whitespace becomes one space.\<close>

function sub_spaces :: "string \<Rightarrow> string" where
  "sub_spaces [] = []"
| "sub_spaces (c # cs) =
     (if is_space c then CHR '' '' # sub_spaces (dropWhile is_space cs)
      else c # sub_spaces cs)"
  by pat_completeness auto
termination
  by (relation "measure length") (auto simp: length_dropWhile_le less_Suc_eq_le)

definition normalize_text :: "pyval \<Rightarrow> string" where
  "normalize_text text = strip (sub_spaces (sub_non_az (lower (py_str text))))"

section \<open>The catalog and the library functions\<close>

text \<open>
  The data frame \<^verbatim>\<open>movies\<close> is a list of rows.  A row carries its label in the
  frame's index, an integer: on a frame with the default index the label is the row's
  position, and a frame that was filtered or sorted keeps the labels its rows had.  The
  column \<^verbatim>\<open>clean_title\<close> is computed from the title when the program starts, and
  \<^verbatim>\<open>title_list\<close> is that column.  \<^verbatim>\<open>vectors\<close> has one row per movie, of a type
  \<open>'v\<close> left open.
\<close>

record movie =
  label :: int
  title :: string
  genres :: "string list"

definition clean_title :: "movie \<Rightarrow> string" where
  "clean_title m = strip (lower (title m))"

record 'v globals =
  movies :: "movie list"
  vectors :: "'v list"

definition title_list :: "'v globals \<Rightarrow> string list" where
  "title_list g = map clean_title (movies g)"

text \<open>The default index: the label of every row is its position.\<close>

definition default_index :: "movie list \<Rightarrow> bool" where
  "default_index ms = (map label ms = map int [0..<length ms])"

text \<open>
  The functions of rapidfuzz, scikit-learn and numpy are parameters: the two scorers
  (on a scale from 0 to 100), the cosine similarity of two rows, and
  \<^verbatim>\<open>np.argsort\<close>.  Scores are real numbers: the floats of the program are finite,
  so they compare as the reals they stand for; the rounding of float arithmetic is left out.
\<close>

datatype scorer = WRatio | partial_ratio

record 'v lib =
  fuzz :: "scorer \<Rightarrow> string \<Rightarrow> string \<Rightarrow> real"
  cosine_similarity :: "'v \<Rightarrow> 'v \<Rightarrow> real"
  argsort :: "real list \<Rightarrow> nat list"

text \<open>
  What numpy promises of \<^verbatim>\<open>np.argsort\<close>: a permutation of the positions that lists
  the values in non-decreasing order.  The order among equal values is not promised.
  Every position it returns is in range, so \<^verbatim>\<open>scores[top_indices]\<close> and
  \<^verbatim>\<open>scores[i]\<close> raise nothing and have no error branch below.
\<close>

definition argsort_spec :: "(real list \<Rightarrow> nat list) \<Rightarrow> bool" where
  "argsort_spec f =
     (\<forall>xs. distinct (f xs) \<and> set (f xs) = {0..<length xs} \<and> sorted (map ((!) xs) (f xs)))"

text \<open>One function that keeps the promise: the stable insertion sort of the positions.\<close>

definition stable_argsort :: "real list \<Rightarrow> nat list" where
  "stable_argsort xs = sort_key ((!) xs) [0..<length xs]"

datatype error = IndexError

text \<open>
  The calls a run makes, in order: the membership test on \<^verbatim>\<open>title_list\<close>, a call of
  \<^verbatim>\<open>process.extractOne\<close> with its scorer and query, and the call of
  \<^verbatim>\<open>cosine_similarity\<close> for a row.
\<close>

datatype call = InTitleList string | ExtractOne scorer string | CosineSimilarity nat

section \<open>The fuzzy resolver\<close>

text \<open>
  \<^verbatim>\<open>process.extractOne(query, choices, scorer=...)\<close>: the choice with the highest
  score and its score, the first such choice when several share it, and
  \<^verbatim>\<open>None\<close> when there is no choice.
\<close>

fun best_from :: "(string \<Rightarrow> real) \<Rightarrow> string list \<Rightarrow> string \<times> real \<Rightarrow> string \<times> real" where
  "best_from f [] b = b"
| "best_from f (c # cs) b = best_from f cs (if snd b < f c then (c, f c) else b)"

definition extractOne :: "(string \<Rightarrow> real) \<Rightarrow> string list \<Rightarrow> (string \<times> real) option" where
  "extractOne f choices =
     (case choices of [] \<Rightarrow> None | c # cs \<Rightarrow> Some (best_from f cs (c, f c)))"

text \<open>\<^verbatim>\<open>match and match[1] >= cutoff\<close>\<close>

definition reaches :: "(string \<times> real) option \<Rightarrow> real \<Rightarrow> bool" where
  "reaches match cutoff = (case match of None \<Rightarrow> False | Some (t, s) \<Rightarrow> cutoff \<le> s)"

definition smart_match_movie ::
  "'v lib \<Rightarrow> string list \<Rightarrow> string \<Rightarrow> string option \<times> call list" where
  "smart_match_movie L titles user_input =
     (let u = strip (lower user_input);
          m1 = extractOne (fuzz L WRatio u) titles
      in if reaches m1 80 then (map_option fst m1, [ExtractOne WRatio u])
         else
           let m2 = extractOne (fuzz L partial_ratio u) titles
           in if reaches m2 85
              then (map_option fst m2, [ExtractOne WRatio u, ExtractOne partial_ratio u])
              else (None, [ExtractOne WRatio u, ExtractOne partial_ratio u]))"

section \<open>The recommender\<close>

text \<open>
  Line 145:
  \<^verbatim>\<open>matched = movie_name if movie_name in title_list else smart_match_movie(movie_name)\<close>
\<close>

definition resolve_title ::
  "'v lib \<Rightarrow> string list \<Rightarrow> string \<Rightarrow> string option \<times> call list" where
  "resolve_title L titles movie_name =
     (if movie_name \<in> set titles then (Some movie_name, [InTitleList movie_name])
      else
        (case smart_match_movie L titles movie_name of
           (matched, calls) \<Rightarrow> (matched, InTitleList movie_name # calls)))"

text \<open>
  Line 150: \<^verbatim>\<open>movies[movies["clean_title"] == matched].index[0]\<close>, the index label
  of the first row whose clean title is the matched one; \<^verbatim>\<open>IndexError\<close> when no row
  has it.
\<close>

definition first_index :: "movie list \<Rightarrow> string \<Rightarrow> error + int" where
  "first_index ms matched =
     (case filter (\<lambda>i. clean_title (ms ! i) = matched) [0..<length ms] of
        [] \<Rightarrow> Inl IndexError
      | i # _ \<Rightarrow> Inr (label (ms ! i)))"

text \<open>
  Lines 141 to 150: the index the query resolves to.  \<open>Inr None\<close> is one of the two
  early returns of the empty list (an empty normalized text, or no match).
\<close>

definition resolve :: "'v lib \<Rightarrow> 'v globals \<Rightarrow> pyval \<Rightarrow> (error + int option) \<times> call list" where
  "resolve L g movie_name =
     (let name = normalize_text movie_name
      in if name = [] then (Inr None, [])
         else
           (case resolve_title L (title_list g) name of
              (None, calls) \<Rightarrow> (Inr None, calls)
            | (Some matched, calls) \<Rightarrow>
                if matched = [] then (Inr None, calls)
                else
                  (case first_index (movies g) matched of
                     Inl e \<Rightarrow> (Inl e, calls)
                   | Inr idx \<Rightarrow> (Inr (Some idx), calls))))"

text \<open>
  An integer used as a position in a sequence of \<open>n\<close> items, as \<^verbatim>\<open>vectors[idx]\<close> of
  line 152 and \<^verbatim>\<open>scores[idx]\<close> of line 153 use the label that line 150 found: a
  negative one counts from the end, and one out of range raises \<^verbatim>\<open>IndexError\<close>.
\<close>

definition py_index :: "nat \<Rightarrow> int \<Rightarrow> error + nat" where
  "py_index n i =
     (if 0 \<le> i \<and> i < int n then Inr (nat i)
      else if - int n \<le> i \<and> i < 0 then Inr (nat (int n + i))
      else Inl IndexError)"

text \<open>
  Lines 152 and 153 for the position \<open>idx\<close>: one score per row of \<^verbatim>\<open>vectors\<close>, the
  one at \<open>idx\<close> set to zero.
\<close>

definition scores_of :: "'v lib \<Rightarrow> 'v globals \<Rightarrow> nat \<Rightarrow> real list" where
  "scores_of L g idx =
     (map (cosine_similarity L (vectors g ! idx)) (vectors g))[idx := 0]"

text \<open>Line 155: \<^verbatim>\<open>np.argsort(scores)[::-1][:30]\<close>\<close>

definition top_indices :: "'v lib \<Rightarrow> real list \<Rightarrow> nat list" where
  "top_indices L scores = take 30 (rev (argsort L scores))"

text \<open>
  Line 156, \<^verbatim>\<open>np.mean\<close>.  The pool is never empty where the program computes its
  mean: \<^verbatim>\<open>vectors[idx]\<close> has raised before on an empty matrix.
\<close>

definition mean :: "real list \<Rightarrow> real" where
  "mean xs = sum_list xs / real (length xs)"

definition mean_score :: "'v lib \<Rightarrow> real list \<Rightarrow> real" where
  "mean_score L scores = mean (map ((!) scores) (top_indices L scores))"

definition threshold :: "'v lib \<Rightarrow> real list \<Rightarrow> real" where
  "threshold L scores = max (mean_score L scores * 0.8) 0.12"

text \<open>
  Lines 159 to 164.  The loop keeps the positions it accepts; the tuple of line 162 is
  built from a position by \<open>recommendation\<close> below.  \<^verbatim>\<open>movies.iloc[i]\<close> raises
  \<^verbatim>\<open>IndexError\<close> past the last row.
\<close>

fun accept_loop ::
  "movie list \<Rightarrow> real list \<Rightarrow> real \<Rightarrow> int \<Rightarrow> nat list \<Rightarrow> nat list \<Rightarrow> error + nat list" where
  "accept_loop ms scores thr top_n [] results = Inr results"
| "accept_loop ms scores thr top_n (i # rest) results =
     (if thr \<le> scores ! i then
        (if i < length ms then
           (let results' = results @ [i]
            in if int (length results') = top_n then Inr results'
               else accept_loop ms scores thr top_n rest results')
         else Inl IndexError)
      else if int (length results) = top_n then Inr results
      else accept_loop ms scores thr top_n rest results)"

text \<open>
  \<^verbatim>\<open>round(x, 2)\<close> of a numpy float: to the nearest hundredth, a tie to the even one.
\<close>

definition rint :: "real \<Rightarrow> int" where
  "rint x =
     (let f = \<lfloor>x\<rfloor>; d = x - of_int f
      in if d < 1 / 2 then f else if 1 / 2 < d then f + 1 else if even f then f else f + 1)"

definition round2 :: "real \<Rightarrow> real" where
  "round2 x = of_int (rint (x * 100)) / 100"

definition recommendation :: "movie list \<Rightarrow> real list \<Rightarrow> nat \<Rightarrow> string \<times> real" where
  "recommendation ms scores i = (title (ms ! i), round2 (scores ! i * 100))"

text \<open>Lines 152 to 164 for the position \<open>idx\<close>: the positions the loop accepts.\<close>

definition accepted :: "'v lib \<Rightarrow> 'v globals \<Rightarrow> nat \<Rightarrow> int \<Rightarrow> error + nat list" where
  "accepted L g idx top_n =
     (if length (vectors g) \<le> idx then Inl IndexError
      else
        (let scores = scores_of L g idx
         in accept_loop (movies g) scores (threshold L scores) top_n (top_indices L scores) []))"

text \<open>
  Lines 152 to 166 for the index that line 150 found, which is used as a position in
  \<^verbatim>\<open>vectors\<close> and in \<^verbatim>\<open>scores\<close>.
\<close>

definition rank :: "'v lib \<Rightarrow> 'v globals \<Rightarrow> int \<Rightarrow> int \<Rightarrow> error + (string \<times> real) list" where
  "rank L g idx top_n =
     (case py_index (length (vectors g)) idx of
        Inl e \<Rightarrow> Inl e
      | Inr pos \<Rightarrow>
          (case accepted L g pos top_n of
             Inl e \<Rightarrow> Inl e
           | Inr results \<Rightarrow> Inr (map (recommendation (movies g) (scores_of L g pos)) results)))"

text \<open>
  \<^verbatim>\<open>robust_recommend(movie_name, top_n)\<close>: what it returns or raises, and the calls
  it has made.
\<close>

definition robust_recommend ::
  "'v lib \<Rightarrow> 'v globals \<Rightarrow> pyval \<Rightarrow> int \<Rightarrow> (error + (string \<times> real) list) \<times> call list" where
  "robust_recommend L g movie_name top_n =
     (case resolve L g movie_name of
        (Inl e, calls) \<Rightarrow> (Inl e, calls)
      | (Inr None, calls) \<Rightarrow> (Inr [], calls)
      | (Inr (Some idx), calls) \<Rightarrow>
          (rank L g idx top_n,
           case py_index (length (vectors g)) idx of
             Inl e \<Rightarrow> calls
           | Inr pos \<Rightarrow> calls @ [CosineSimilarity pos]))"

section \<open>A small catalog\<close>

text \<open>
  Four movies, a table of similarities in place of the vectors (a row of
  \<^verbatim>\<open>vectors\<close> is its own number), and two scorers that know one misspelling and one
  prefix.  The numbers are chosen for the examples; they are not rapidfuzz's.
\<close>

definition example_similarity :: "real list list" where
  "example_similarity =
     [[1, 0.9, 0.5, 0.1],
      [0.9, 1, 0.4, 0.2],
      [0.5, 0.4, 1, 0.05],
      [0.1, 0.2, 0.05, 1]]"

fun example_fuzz :: "scorer \<Rightarrow> string \<Rightarrow> string \<Rightarrow> real" where
  "example_fuzz WRatio q c =
     (if q = c then 100 else if q = ''batmn'' \<and> c = ''batman'' then 91 else 20)"
| "example_fuzz partial_ratio q c =
     (if q = c then 100 else if q = ''incep'' \<and> c = ''inception'' then 100 else 25)"

definition example_lib :: "nat lib" where
  "example_lib =
     \<lparr>fuzz = example_fuzz,
      cosine_similarity = (\<lambda>a b. example_similarity ! a ! b),
      argsort = stable_argsort\<rparr>"

definition example_globals :: "nat globals" where
  "example_globals =
     \<lparr>movies =
        [\<lparr>label = 0, title = ''Inception'', genres = [''Action'', ''Science Fiction'']\<rparr>,
         \<lparr>label = 1, title = ''Interstellar'', genres = [''Science Fiction'']\<rparr>,
         \<lparr>label = 2, title = ''Batman'', genres = [''Action'']\<rparr>,
         \<lparr>label = 3, title = ''Heat'', genres = [''Crime'']\<rparr>],
      vectors = [0, 1, 2, 3]\<rparr>"


text \<open>A catalog of one movie whose title is a single space, so that its clean title is empty.\<close>

definition blank_title_globals :: "nat globals" where
  "blank_title_globals =
     \<lparr>movies = [\<lparr>label = 0, title = '' '', genres = []\<rparr>], vectors = [0]\<rparr>"

text \<open>The characters a normalized text is made of: the letters a to z and the space.\<close>

definition plain :: "char \<Rightarrow> bool" where
  "plain c = (is_az c \<or> c = CHR '' '')"

section \<open>The empty input and the input None\<close>

lemma resolve_title_calls:
  "\<exists>calls. snd (resolve_title L titles name) = InTitleList name # calls"
  by (simp add: resolve_title_def split: prod.splits)

lemma resolve_calls:
  "normalize_text movie_name \<noteq> [] \<Longrightarrow>
   \<exists>calls. snd (resolve L g movie_name) = InTitleList (normalize_text movie_name) # calls"
  using resolve_title_calls [of L "title_list g" "normalize_text movie_name"]
  by (auto simp: resolve_def Let_def split: prod.splits option.splits sum.splits)

lemma robust_recommend_calls:
  "normalize_text movie_name \<noteq> [] \<Longrightarrow>
   \<exists>calls. snd (robust_recommend L g movie_name top_n)
     = InTitleList (normalize_text movie_name) # calls"
  using resolve_calls [of movie_name L g]
  by (auto simp: robust_recommend_def split: prod.splits option.splits sum.splits)

lemma robust_recommend_cong:
  "normalize_text a = normalize_text b \<Longrightarrow>
   robust_recommend L g a top_n = robust_recommend L g b top_n"
  by (simp add: robust_recommend_def resolve_def)

lemma normalize_text_None: "normalize_text PyNone = ''none''"
  by code_simp

text \<open>
  Claim C6.  When the normalized form of the input is the empty string,
  \<^verbatim>\<open>robust_recommend\<close> returns the empty list and raises nothing, whatever the catalog,
  the vectors and the library are, and it has made no call: no membership test, no fuzzy
  scoring, no similarity computation.
\<close>

theorem empty_input_returns_empty:
  "normalize_text movie_name = [] \<Longrightarrow> robust_recommend L g movie_name top_n = (Inr [], [])"
  by (simp add: robust_recommend_def resolve_def)

text \<open>The three inputs the specification names: the empty string, blanks, punctuation.\<close>

theorem empty_input_returns_empty_witness:
  "normalize_text (PyStr ''!!!'') = [] \<and> normalize_text (PyStr ''   '') = [] \<and>
   normalize_text (PyStr []) = [] \<and>
   robust_recommend example_lib example_globals (PyStr ''!!!'') 10 = (Inr [], [])"
proof -
  have h: "normalize_text (PyStr ''!!!'') = []" by code_simp
  have "normalize_text (PyStr ''   '') = []" and "normalize_text (PyStr []) = []"
    by code_simp+
  with h empty_input_returns_empty [OF h, of example_lib example_globals 10]
  show ?thesis by simp
qed

text \<open>
  Claim C9.  \<^verbatim>\<open>normalize_text(None)\<close> is the text \<^verbatim>\<open>none\<close>, which is not empty:
  \<^verbatim>\<open>robust_recommend(None)\<close> does what \<^verbatim>\<open>robust_recommend("none")\<close> does, and its
  first call is the membership test of \<^verbatim>\<open>none\<close> on the title list, so the query went
  past the return for an empty text and into title resolution.
\<close>

theorem none_is_resolved_as_text:
  "normalize_text PyNone = ''none'' \<and>
   robust_recommend L g PyNone top_n = robust_recommend L g (PyStr ''none'') top_n \<and>
   (\<exists>calls. snd (robust_recommend L g PyNone top_n) = InTitleList ''none'' # calls)"
proof -
  have n: "normalize_text PyNone = ''none''" by (rule normalize_text_None)
  have s: "normalize_text (PyStr ''none'') = ''none''" by code_simp
  have "robust_recommend L g PyNone top_n = robust_recommend L g (PyStr ''none'') top_n"
    by (rule robust_recommend_cong) (simp add: n s)
  moreover have "\<exists>calls. snd (robust_recommend L g PyNone top_n) = InTitleList ''none'' # calls"
    using robust_recommend_calls [of PyNone L g top_n] n by simp
  ultimately show ?thesis using n by blast
qed

section \<open>The fuzzy resolver and the exact match\<close>

lemma best_from_props:
  "best_from f cs b = (c, s) \<Longrightarrow> snd b = f (fst b) \<Longrightarrow>
   c \<in> insert (fst b) (set cs) \<and> s = f c \<and> f (fst b) \<le> s \<and> (\<forall>c' \<in> set cs. f c' \<le> s)"
proof (induction cs arbitrary: b)
  case Nil
  then show ?case by auto
next
  case (Cons a cs)
  let ?b = "if snd b < f a then (a, f a) else b"
  have "best_from f cs ?b = (c, s)" and "snd ?b = f (fst ?b)"
    using Cons.prems by auto
  from Cons.IH [OF this]
  have "c \<in> insert (fst ?b) (set cs)" and "s = f c" and "f (fst ?b) \<le> s"
    and "\<forall>c' \<in> set cs. f c' \<le> s"
    by blast+
  then show ?case
    using Cons.prems(2) by (auto split: if_splits)
qed

lemma extractOne_Some:
  "extractOne f cs = Some (c, s) \<Longrightarrow> c \<in> set cs \<and> s = f c \<and> (\<forall>c' \<in> set cs. f c' \<le> f c)"
proof (cases cs)
  case Nil
  then show "extractOne f cs = Some (c, s) \<Longrightarrow> ?thesis" by (simp add: extractOne_def)
next
  case (Cons a as)
  assume "extractOne f cs = Some (c, s)"
  then have "best_from f as (a, f a) = (c, s)"
    using Cons by (simp add: extractOne_def)
  from best_from_props [OF this] Cons show ?thesis by auto
qed

lemma extractOne_nonempty: "cs \<noteq> [] \<Longrightarrow> \<exists>c s. extractOne f cs = Some (c, s)"
  by (cases cs) (auto simp: extractOne_def intro: prod.exhaust)

lemma smart_match_movie_in_titles:
  "fst (smart_match_movie L titles u) = Some m \<Longrightarrow> m \<in> set titles"
  by (auto simp: smart_match_movie_def Let_def reaches_def
      split: if_splits option.splits prod.splits dest: extractOne_Some)

lemma resolve_title_in_titles:
  "fst (resolve_title L titles name) = Some m \<Longrightarrow> m \<in> set titles"
  using smart_match_movie_in_titles [of L titles name m]
  by (auto simp: resolve_title_def split: if_splits prod.splits)

lemma first_index_found:
  assumes "m \<in> set (map clean_title ms)"
  shows "\<exists>pos. first_index ms m = Inr (label (ms ! pos)) \<and> pos < length ms \<and>
           clean_title (ms ! pos) = m \<and> (\<forall>j<pos. clean_title (ms ! j) \<noteq> m)"
proof -
  let ?P = "\<lambda>i. clean_title (ms ! i) = m"
  from assms obtain k where "k < length ms" "?P k"
    by (auto simp: in_set_conv_nth)
  then have "k \<in> set (filter ?P [0..<length ms])" by simp
  then obtain i rest where f: "filter ?P [0..<length ms] = i # rest"
    by (cases "filter ?P [0..<length ms]") auto
  then obtain us vs where u: "[0..<length ms] = us @ i # vs" and n: "\<forall>u \<in> set us. \<not> ?P u" and "?P i"
    by (auto simp: filter_eq_Cons_iff)
  have len: "length us = i"
    using u by (metis add.left_neutral length_append length_pos_if_in_set length_upt
        less_add_same_cancel1 list.set_intros(1) nth_append_length nth_upt in_set_conv_decomp
        diff_zero)
  have "i < length ms"
    using u by (metis atLeastLessThan_iff in_set_conv_decomp set_upt)
  moreover have "\<forall>j<i. \<not> ?P j"
  proof (intro allI impI)
    fix j assume "j < i"
    then have "us ! j = [0..<length ms] ! j" using u len by (simp add: nth_append)
    also have "\<dots> = j" using \<open>j < i\<close> \<open>i < length ms\<close> by simp
    finally have "j \<in> set us" using \<open>j < i\<close> len by (metis nth_mem)
    then show "\<not> ?P j" using n by blast
  qed
  ultimately show ?thesis
    using f \<open>?P i\<close> by (auto simp: first_index_def)
qed


lemma is_az_not_upper: "is_az c \<Longrightarrow> \<not> is_upper c"
  by (auto simp: is_az_def is_upper_def Let_def)

lemma space_not_upper: "\<not> is_upper (CHR '' '')"
  by (simp add: is_upper_def)

lemma space_is_space: "is_space (CHR '' '')"
  by (simp add: is_space_def)

lemma sub_non_az_chars: "\<forall>c \<in> set (sub_non_az s). is_az c \<or> is_space c"
  by (auto simp: sub_non_az_def space_is_space)

lemma sub_spaces_chars:
  "\<forall>c \<in> set s. is_az c \<or> is_space c \<Longrightarrow> \<forall>c \<in> set (sub_spaces s). plain c"
proof (induction s rule: sub_spaces.induct)
  case 1
  then show ?case by simp
next
  case (2 c cs)
  have "\<forall>c \<in> set (dropWhile is_space cs). is_az c \<or> is_space c"
    using 2(3) by (meson list.set_intros(2) set_dropWhileD)
  with 2 show ?case by (auto simp: plain_def)
qed

lemma set_strip: "set (strip s) \<subseteq> set s"
  by (auto simp: strip_def dest!: set_dropWhileD)

lemma lower_plain: "\<forall>c \<in> set s. plain c \<Longrightarrow> lower s = s"
  by (induction s) (auto simp: lower_def lower_char_def plain_def is_az_not_upper space_not_upper)

lemma strip_strip: "strip (strip s) = strip s"
proof -
  define a where "a = dropWhile is_space s"
  define b where "b = dropWhile is_space (rev a)"
  have st: "strip s = rev b"
    by (simp add: strip_def a_def b_def)
  have "rev a = takeWhile is_space (rev a) @ b"
    by (simp add: b_def)
  then have a: "a = rev b @ rev (takeWhile is_space (rev a))"
    by (metis rev_append rev_rev_ident)
  have "dropWhile is_space (rev b) = rev b"
  proof (cases "rev b = []")
    case True
    then show ?thesis by simp
  next
    case False
    then have "hd (rev b) = hd a" and "a \<noteq> []"
      using a by (metis hd_append2, metis append_is_Nil_conv)
    moreover have "a \<noteq> [] \<Longrightarrow> \<not> is_space (hd a)"
      unfolding a_def by (rule hd_dropWhile)
    ultimately show ?thesis
      by (simp add: dropWhile_eq_self_iff)
  qed
  then have "strip (rev b) = rev (dropWhile is_space b)"
    by (simp add: strip_def)
  also have "\<dots> = rev b"
    by (simp add: b_def)
  finally show ?thesis
    by (simp add: st)
qed

lemma normalize_text_plain: "\<forall>c \<in> set (normalize_text t). plain c"
  using sub_spaces_chars[OF sub_non_az_chars] set_strip unfolding normalize_text_def by blast

lemma strip_lower_normalize_text: "strip (lower (normalize_text t)) = normalize_text t"
  using lower_plain[OF normalize_text_plain] strip_strip by (simp add: normalize_text_def)

text \<open>
  Claim C4.  For a normalized input \<open>u\<close> and a title list that is not empty there are a
  best candidate \<open>cw\<close> of the weighted ratio and a best candidate \<open>cp\<close> of the partial
  ratio (no title scores higher), and \<^verbatim>\<open>smart_match_movie\<close> returns \<open>cw\<close> when its
  score is at least 80, otherwise \<open>cp\<close> when its score is at least 85, otherwise
  \<^verbatim>\<open>None\<close>.  The function has no error result: it raises nothing.
\<close>

theorem smart_match_movie_passes:
  assumes "titles \<noteq> []" and "u = normalize_text movie_name"
  shows "\<exists>cw \<in> set titles. \<exists>cp \<in> set titles.
           (\<forall>c \<in> set titles. fuzz L WRatio u c \<le> fuzz L WRatio u cw) \<and>
           (\<forall>c \<in> set titles. fuzz L partial_ratio u c \<le> fuzz L partial_ratio u cp) \<and>
           fst (smart_match_movie L titles u) =
             (if 80 \<le> fuzz L WRatio u cw then Some cw
              else if 85 \<le> fuzz L partial_ratio u cp then Some cp
              else None)"
proof -
  have u: "strip (lower u) = u"
    using assms(2) by (simp add: strip_lower_normalize_text)
  obtain cw sw where w: "extractOne (fuzz L WRatio u) titles = Some (cw, sw)"
    using extractOne_nonempty [OF assms(1)] by blast
  obtain cp sp where p: "extractOne (fuzz L partial_ratio u) titles = Some (cp, sp)"
    using extractOne_nonempty [OF assms(1)] by blast
  note W = extractOne_Some [OF w] and P = extractOne_Some [OF p]
  have "fst (smart_match_movie L titles u) =
          (if 80 \<le> fuzz L WRatio u cw then Some cw
           else if 85 \<le> fuzz L partial_ratio u cp then Some cp
           else None)"
    using W P by (simp add: smart_match_movie_def u w p reaches_def Let_def)
  with W P show ?thesis by blast
qed


theorem smart_match_movie_passes_witness:
  "title_list example_globals \<noteq> [] \<and> ''batmn'' = normalize_text (PyStr ''Batmn'') \<and>
   fst (smart_match_movie example_lib (title_list example_globals) ''batmn'') = Some ''batman'' \<and>
   fst (smart_match_movie example_lib (title_list example_globals) ''incep'') = Some ''inception'' \<and>
   fst (smart_match_movie example_lib (title_list example_globals) ''xyz'') = None \<and>
   (\<exists>cw \<in> set (title_list example_globals). \<exists>cp \<in> set (title_list example_globals).
      (\<forall>c \<in> set (title_list example_globals).
         fuzz example_lib WRatio ''batmn'' c \<le> fuzz example_lib WRatio ''batmn'' cw) \<and>
      (\<forall>c \<in> set (title_list example_globals).
         fuzz example_lib partial_ratio ''batmn'' c \<le> fuzz example_lib partial_ratio ''batmn'' cp) \<and>
      fst (smart_match_movie example_lib (title_list example_globals) ''batmn'') =
        (if 80 \<le> fuzz example_lib WRatio ''batmn'' cw then Some cw
         else if 85 \<le> fuzz example_lib partial_ratio ''batmn'' cp then Some cp
         else None))"
proof -
  have h1: "title_list example_globals \<noteq> []" by code_simp
  have h2: "''batmn'' = normalize_text (PyStr ''Batmn'')" by code_simp
  have e1: "fst (smart_match_movie example_lib (title_list example_globals) ''batmn'')
              = Some ''batman''"
    by code_simp
  have e2: "fst (smart_match_movie example_lib (title_list example_globals) ''incep'')
              = Some ''inception''"
    by code_simp
  have e3: "fst (smart_match_movie example_lib (title_list example_globals) ''xyz'') = None"
    by code_simp
  from h1 h2 e1 e2 e3 smart_match_movie_passes [OF h1 h2, of example_lib]
  show ?thesis by blast
qed

text \<open>
  Claim C2, as amended.  When the normalized query is not empty and is one of the
  catalog's clean titles, line 145 returns it after the membership test alone, the query
  resolves to the index label of a row with that clean title, and the run of
  \<^verbatim>\<open>robust_recommend\<close> calls \<^verbatim>\<open>process.extractOne\<close> nowhere.
\<close>

theorem exact_title_resolves:
  assumes "normalize_text movie_name \<in> set (title_list g)"
    and "normalize_text movie_name \<noteq> []"
  shows "resolve_title L (title_list g) (normalize_text movie_name)
           = (Some (normalize_text movie_name), [InTitleList (normalize_text movie_name)]) \<and>
         (\<exists>pos. resolve L g movie_name
                  = (Inr (Some (label (movies g ! pos))),
                     [InTitleList (normalize_text movie_name)]) \<and>
                pos < length (movies g) \<and>
                clean_title (movies g ! pos) = normalize_text movie_name) \<and>
         (\<forall>sc u. ExtractOne sc u \<notin> set (snd (robust_recommend L g movie_name top_n)))"
proof -
  let ?n = "normalize_text movie_name"
  have r: "resolve_title L (title_list g) ?n = (Some ?n, [InTitleList ?n])"
    using assms(1) by (simp add: resolve_title_def)
  have "?n \<in> set (map clean_title (movies g))"
    using assms(1) by (simp add: title_list_def)
  from first_index_found [OF this]
  obtain pos where i: "first_index (movies g) ?n = Inr (label (movies g ! pos))"
    "pos < length (movies g)" "clean_title (movies g ! pos) = ?n"
    by blast
  have res: "resolve L g movie_name = (Inr (Some (label (movies g ! pos))), [InTitleList ?n])"
    using assms(2) by (simp add: resolve_def r i)
  then have "\<forall>sc u. ExtractOne sc u \<notin> set (snd (robust_recommend L g movie_name top_n))"
    by (simp add: robust_recommend_def split: sum.splits)
  with r res i show ?thesis by blast
qed

theorem exact_title_resolves_witness:
  "normalize_text (PyStr ''Inception'') \<in> set (title_list example_globals) \<and>
   normalize_text (PyStr ''Inception'') \<noteq> [] \<and>
   resolve_title example_lib (title_list example_globals) (normalize_text (PyStr ''Inception''))
     = (Some ''inception'', [InTitleList ''inception'']) \<and>
   resolve example_lib example_globals (PyStr ''Inception'')
     = (Inr (Some 0), [InTitleList ''inception''])"
proof -
  have h: "normalize_text (PyStr ''Inception'') \<in> set (title_list example_globals)"
    by code_simp
  have n: "normalize_text (PyStr ''Inception'') = ''inception''" by code_simp
  then have ne: "normalize_text (PyStr ''Inception'') \<noteq> []" by simp
  have r: "resolve example_lib example_globals (PyStr ''Inception'')
             = (Inr (Some 0), [InTitleList ''inception''])"
    by code_simp
  from h n r exact_title_resolves [OF h ne, of example_lib 10]
  show ?thesis by simp
qed

text \<open>
  The claim as it was stated fails where the catalog holds a blank title: the empty
  query normalizes to the empty text, which is that movie's clean title, and line 142
  returns the empty list before any resolution; the query resolves to no row.
\<close>

theorem exact_title_empty_counterexample:
  "normalize_text (PyStr []) \<in> set (title_list blank_title_globals) \<and>
   resolve example_lib blank_title_globals (PyStr []) = (Inr None, []) \<and>
   robust_recommend example_lib blank_title_globals (PyStr []) 10 = (Inr [], [])"
proof -
  have "normalize_text (PyStr []) \<in> set (title_list blank_title_globals)"
    by code_simp
  moreover have "resolve example_lib blank_title_globals (PyStr []) = (Inr None, [])"
    by code_simp
  moreover have "robust_recommend example_lib blank_title_globals (PyStr []) 10 = (Inr [], [])"
    by code_simp
  ultimately show ?thesis by simp
qed

lemma first_index_is_label:
  "first_index ms m = Inr idx \<Longrightarrow>
   \<exists>pos<length ms. idx = label (ms ! pos) \<and> clean_title (ms ! pos) = m"
proof -
  assume "first_index ms m = Inr idx"
  then obtain pos rest where
    f: "filter (\<lambda>i. clean_title (ms ! i) = m) [0..<length ms] = pos # rest"
    and l: "idx = label (ms ! pos)"
    by (auto simp: first_index_def split: list.splits)
  from f have "pos \<in> set (filter (\<lambda>i. clean_title (ms ! i) = m) [0..<length ms])"
    by simp
  with l show ?thesis by auto
qed

lemma resolve_is_label:
  "fst (resolve L g movie_name) = Inr (Some idx) \<Longrightarrow>
   \<exists>pos<length (movies g). idx = label (movies g ! pos) \<and>
      fst (resolve_title L (title_list g) (normalize_text movie_name))
        = Some (clean_title (movies g ! pos))"
  by (auto simp: resolve_def Let_def
      split: if_splits prod.splits option.splits sum.splits dest: first_index_is_label)

lemma default_index_label: "default_index ms \<Longrightarrow> pos < length ms \<Longrightarrow> label (ms ! pos) = int pos"
proof -
  assume d: "default_index ms" and p: "pos < length ms"
  then have "map label ms ! pos = map int [0..<length ms] ! pos"
    by (simp add: default_index_def)
  with p show ?thesis by simp
qed

lemma py_index_position: "pos < n \<Longrightarrow> py_index n (int pos) = Inr pos"
  by (simp add: py_index_def)

lemma py_index_in_range: "py_index n i = Inr pos \<Longrightarrow> pos < n"
  by (auto simp: py_index_def split: if_splits)

lemma resolve_raises_nothing: "fst (resolve L g movie_name) \<noteq> Inl e"
proof (cases "resolve_title L (title_list g) (normalize_text movie_name)")
  case (Pair mt calls)
  show ?thesis
  proof (cases mt)
    case None
    with Pair show ?thesis by (simp add: resolve_def Let_def)
  next
    case (Some t)
    with Pair have "t \<in> set (map clean_title (movies g))"
      using resolve_title_in_titles [of L "title_list g" "normalize_text movie_name" t]
      by (simp add: title_list_def)
    from first_index_found [OF this] Pair Some show ?thesis
      by (auto simp: resolve_def Let_def)
  qed
qed

text \<open>
  Claim C10.  A title that line 145 returns, from the membership test or from
  \<^verbatim>\<open>smart_match_movie\<close>, is one of the catalog's clean titles; the selection of line
  150 then has a first row, which has that clean title and is the first to have it; and
  lines 141 to 150 raise nothing on any query.
\<close>

theorem resolved_title_is_in_catalog:
  assumes "fst (resolve_title L (title_list g) name) = Some matched"
  shows "matched \<in> set (title_list g) \<and>
         (\<exists>pos. first_index (movies g) matched = Inr (label (movies g ! pos)) \<and>
                pos < length (movies g) \<and>
                clean_title (movies g ! pos) = matched \<and>
                (\<forall>j<pos. clean_title (movies g ! j) \<noteq> matched)) \<and>
         fst (resolve L g movie_name) \<noteq> Inl e"
proof -
  have m: "matched \<in> set (title_list g)"
    using assms by (rule resolve_title_in_titles)
  then have "matched \<in> set (map clean_title (movies g))"
    by (simp add: title_list_def)
  from first_index_found [OF this] m resolve_raises_nothing [of L g movie_name e]
  show ?thesis by blast
qed

theorem resolved_title_is_in_catalog_witness:
  "fst (resolve_title example_lib (title_list example_globals) ''batmn'') = Some ''batman'' \<and>
   ''batman'' \<in> set (title_list example_globals) \<and>
   first_index (movies example_globals) ''batman'' = Inr 2 \<and>
   fst (resolve example_lib example_globals (PyStr ''batmn'')) = Inr (Some 2)"
proof -
  have h: "fst (resolve_title example_lib (title_list example_globals) ''batmn'') = Some ''batman''"
    by code_simp
  have f: "first_index (movies example_globals) ''batman'' = Inr 2" by code_simp
  have r: "fst (resolve example_lib example_globals (PyStr ''batmn'')) = Inr (Some 2)"
    by code_simp
  from h f r resolved_title_is_in_catalog [OF h, of "PyStr ''batmn''" IndexError]
  show ?thesis by simp
qed

section \<open>The ranking pool and the acceptance loop\<close>

lemma stable_argsort_spec: "argsort_spec stable_argsort"
  by (simp add: argsort_spec_def stable_argsort_def)

lemma argsort_length: "argsort_spec f \<Longrightarrow> length (f xs) = length xs"
proof -
  assume "argsort_spec f"
  then have "distinct (f xs)" and "set (f xs) = {0..<length xs}"
    by (simp_all add: argsort_spec_def)
  then show ?thesis
    by (metis card_atLeastLessThan diff_zero distinct_card)
qed

lemma top_indices_length:
  "argsort_spec (argsort L) \<Longrightarrow> length (top_indices L scores) = min 30 (length scores)"
  by (simp add: top_indices_def argsort_length min.commute)

lemma top_indices_distinct: "argsort_spec (argsort L) \<Longrightarrow> distinct (top_indices L scores)"
  by (simp add: top_indices_def argsort_spec_def distinct_take)

lemma top_indices_subset:
  "argsort_spec (argsort L) \<Longrightarrow> set (top_indices L scores) \<subseteq> {0..<length scores}"
proof -
  assume a: "argsort_spec (argsort L)"
  have "set (top_indices L scores) \<subseteq> set (rev (argsort L scores))"
    unfolding top_indices_def by (rule set_take_subset)
  also have "\<dots> = {0..<length scores}"
    using a by (simp add: argsort_spec_def)
  finally show ?thesis .
qed

lemma top_indices_all:
  assumes "argsort_spec (argsort L)" and "length scores \<le> 30"
  shows "set (top_indices L scores) = {0..<length scores}"
proof -
  have "length (rev (argsort L scores)) \<le> 30"
    using assms by (simp add: argsort_length)
  then have "top_indices L scores = rev (argsort L scores)"
    by (simp add: top_indices_def)
  then show ?thesis
    using assms(1) by (simp add: argsort_spec_def)
qed

lemma top_indices_descending:
  assumes "argsort_spec (argsort L)"
  shows "sorted_wrt (\<lambda>i j. scores ! j \<le> scores ! i) (top_indices L scores)"
proof -
  have "sorted (map ((!) scores) (argsort L scores))"
    using assms by (simp add: argsort_spec_def)
  then have "sorted_wrt (\<lambda>i j. scores ! i \<le> scores ! j) (argsort L scores)"
    by (simp add: sorted_wrt_map)
  then have "sorted_wrt (\<lambda>i j. scores ! j \<le> scores ! i) (rev (argsort L scores))"
    by (simp add: sorted_wrt_rev)
  then show ?thesis
    unfolding top_indices_def by (rule sorted_wrt_take)
qed

lemma accept_loop_prefix:
  "accept_loop ms scores thr top_n pool results = Inr out \<Longrightarrow>
   \<exists>k. out = results @ take k (filter (\<lambda>i. thr \<le> scores ! i) pool)"
proof (induction pool arbitrary: results)
  case Nil
  then show ?case by simp
next
  case (Cons i rest)
  let ?P = "\<lambda>i. thr \<le> scores ! i"
  show ?case
  proof (cases "?P i")
    case True
    then have lt: "i < length ms"
      using Cons.prems by (simp split: if_splits)
    show ?thesis
    proof (cases "int (length (results @ [i])) = top_n")
      case stop: True
      then have "out = results @ take 1 (filter ?P (i # rest))"
        using Cons.prems True lt by (simp add: Let_def)
      then show ?thesis by blast
    next
      case False
      then have "accept_loop ms scores thr top_n rest (results @ [i]) = Inr out"
        using Cons.prems True lt by (simp add: Let_def)
      from Cons.IH [OF this] obtain k where "out = (results @ [i]) @ take k (filter ?P rest)"
        by blast
      then have "out = results @ take (Suc k) (filter ?P (i # rest))"
        using True by simp
      then show ?thesis by blast
    qed
  next
    case False
    show ?thesis
    proof (cases "int (length results) = top_n")
      case stop: True
      then have "out = results @ take 0 (filter ?P (i # rest))"
        using Cons.prems False by simp
      then show ?thesis by blast
    next
      case go: False
      then have "accept_loop ms scores thr top_n rest results = Inr out"
        using Cons.prems False by simp
      from Cons.IH [OF this] show ?thesis using False by simp
    qed
  qed
qed

lemma accept_loop_positive:
  "int (length results) < top_n \<Longrightarrow>
   accept_loop ms scores thr top_n pool results = Inr out \<Longrightarrow>
   out = results @ take (nat top_n - length results) (filter (\<lambda>i. thr \<le> scores ! i) pool)"
proof (induction pool arbitrary: results)
  case Nil
  then show ?case by simp
next
  case (Cons i rest)
  let ?P = "\<lambda>i. thr \<le> scores ! i"
  show ?case
  proof (cases "?P i")
    case True
    then have lt: "i < length ms"
      using Cons.prems by (simp split: if_splits)
    have suc: "nat top_n - length results = Suc (nat top_n - length (results @ [i]))"
      using Cons.prems(1) by simp
    show ?thesis
    proof (cases "int (length (results @ [i])) = top_n")
      case stop: True
      then have "out = results @ [i]"
        using Cons.prems True lt by (simp add: Let_def)
      moreover have "nat top_n - length results = 1"
        using stop by simp
      ultimately show ?thesis using True by simp
    next
      case False
      then have run: "accept_loop ms scores thr top_n rest (results @ [i]) = Inr out"
        using Cons.prems True lt by (simp add: Let_def)
      have "int (length (results @ [i])) < top_n"
        using False Cons.prems(1) by simp
      from Cons.IH [OF this run]
      have "out = (results @ [i]) @ take (nat top_n - length (results @ [i])) (filter ?P rest)" .
      then show ?thesis
        using True suc by simp
    qed
  next
    case False
    then have "accept_loop ms scores thr top_n rest results = Inr out"
      using Cons.prems by simp
    from Cons.IH [OF Cons.prems(1) this] show ?thesis using False by simp
  qed
qed

lemma accept_loop_total:
  "\<forall>i \<in> set pool. i < length ms \<Longrightarrow> \<exists>out. accept_loop ms scores thr top_n pool results = Inr out"
  by (induction pool arbitrary: results) (auto simp: Let_def)

lemma rint_cases: "rint x = \<lfloor>x\<rfloor> \<or> rint x = \<lfloor>x\<rfloor> + 1"
  by (simp add: rint_def Let_def)

lemma rint_mono: "x \<le> y \<Longrightarrow> rint x \<le> rint y"
proof -
  assume xy: "x \<le> y"
  then have fl: "\<lfloor>x\<rfloor> \<le> \<lfloor>y\<rfloor>" by (rule floor_mono)
  show ?thesis
  proof (cases "\<lfloor>x\<rfloor> = \<lfloor>y\<rfloor>")
    case True
    then have "x - of_int \<lfloor>x\<rfloor> \<le> y - of_int \<lfloor>y\<rfloor>"
      using xy by simp
    then show ?thesis
      using True by (auto simp: rint_def Let_def)
  next
    case False
    then have "\<lfloor>x\<rfloor> + 1 \<le> \<lfloor>y\<rfloor>" using fl by simp
    then show ?thesis
      using rint_cases [of x] rint_cases [of y] by linarith
  qed
qed

lemma round2_mono: "x \<le> y \<Longrightarrow> round2 x \<le> round2 y"
  by (simp add: round2_def rint_mono divide_right_mono)

lemma threshold_floor: "0.12 \<le> threshold L scores"
  by (simp add: threshold_def)

lemma scores_of_self: "idx < length (vectors g) \<Longrightarrow> scores_of L g idx ! idx = 0"
  by (simp add: scores_of_def)

lemma scores_of_length: "length (scores_of L g idx) = length (vectors g)"
  by (simp add: scores_of_def)


lemma accepted_prefix:
  assumes "accepted L g idx top_n = Inr results"
  shows "idx < length (vectors g) \<and>
         (\<exists>k. results = take k (filter (\<lambda>i. threshold L (scores_of L g idx) \<le> scores_of L g idx ! i)
                                (top_indices L (scores_of L g idx))))"
proof -
  have lt: "idx < length (vectors g)"
    using assms by (simp add: accepted_def split: if_splits)
  then have "accept_loop (movies g) (scores_of L g idx) (threshold L (scores_of L g idx)) top_n
               (top_indices L (scores_of L g idx)) [] = Inr results"
    using assms by (simp add: accepted_def Let_def)
  from accept_loop_prefix [OF this] lt show ?thesis by simp
qed

lemma accepted_positive:
  assumes "1 \<le> top_n" and "accepted L g idx top_n = Inr results"
  shows "results = take (nat top_n) (filter (\<lambda>i. threshold L (scores_of L g idx) \<le> scores_of L g idx ! i)
                                (top_indices L (scores_of L g idx)))"
proof -
  have lt: "idx < length (vectors g)"
    using assms(2) by (simp add: accepted_def split: if_splits)
  then have run: "accept_loop (movies g) (scores_of L g idx) (threshold L (scores_of L g idx)) top_n
               (top_indices L (scores_of L g idx)) [] = Inr results"
    using assms(2) by (simp add: accepted_def Let_def)
  have "int (length ([] :: nat list)) < top_n" using assms(1) by simp
  from accept_loop_positive [OF this run] show ?thesis by simp
qed

lemma accepted_total:
  assumes "argsort_spec (argsort L)" and "length (vectors g) = length (movies g)"
    and "idx < length (movies g)"
  shows "\<exists>results. accepted L g idx top_n = Inr results"
proof -
  have "\<forall>i \<in> set (top_indices L (scores_of L g idx)). i < length (movies g)"
    using top_indices_subset [OF assms(1), of "scores_of L g idx"] assms(2)
    by (auto simp: scores_of_length)
  from accept_loop_total [OF this] assms(2,3) show ?thesis
    by (simp add: accepted_def Let_def)
qed

lemma accepted_not_self:
  assumes "accepted L g idx top_n = Inr results"
  shows "idx \<notin> set results"
proof
  assume mem: "idx \<in> set results"
  from accepted_prefix [OF assms] obtain k where
    lt: "idx < length (vectors g)" and
    r: "results = take k (filter (\<lambda>i. threshold L (scores_of L g idx) \<le> scores_of L g idx ! i)
                                (top_indices L (scores_of L g idx)))"
    by blast
  from mem r have "threshold L (scores_of L g idx) \<le> scores_of L g idx ! idx"
    by (auto dest: in_set_takeD)
  then show False
    using threshold_floor [of L "scores_of L g idx"] scores_of_self [OF lt, of L] by simp
qed

lemma robust_recommend_resolved:
  assumes "fst (resolve L g movie_name) = Inr (Some idx)"
  shows "fst (robust_recommend L g movie_name top_n) = rank L g idx top_n"
  using assms by (cases "resolve L g movie_name") (simp add: robust_recommend_def)

lemma robust_recommend_cases:
  assumes "fst (robust_recommend L g movie_name top_n) = Inr recs"
  shows "recs = [] \<or> (\<exists>idx. rank L g idx top_n = Inr recs)"
  using assms
  by (cases "resolve L g movie_name")
     (auto simp: robust_recommend_def split: sum.splits option.splits)

lemma rank_Inr:
  "rank L g idx top_n = Inr recs \<Longrightarrow>
   \<exists>pos results. py_index (length (vectors g)) idx = Inr pos \<and>
             accepted L g pos top_n = Inr results \<and>
             recs = map (recommendation (movies g) (scores_of L g pos)) results"
  by (auto simp: rank_def split: sum.splits)

lemma rank_descending:
  assumes "argsort_spec (argsort L)" and "rank L g idx top_n = Inr recs"
  shows "sorted_wrt (\<lambda>a b. snd b \<le> snd a) recs"
proof -
  from rank_Inr [OF assms(2)] obtain pos results where
    a: "accepted L g pos top_n = Inr results" and
    r: "recs = map (recommendation (movies g) (scores_of L g pos)) results"
    by blast
  let ?sc = "scores_of L g pos"
  from accepted_prefix [OF a] obtain k where
    k: "results = take k (filter (\<lambda>i. threshold L ?sc \<le> ?sc ! i) (top_indices L ?sc))"
    by blast
  have "sorted_wrt (\<lambda>i j. ?sc ! j \<le> ?sc ! i) (top_indices L ?sc)"
    using assms(1) by (rule top_indices_descending)
  then have "sorted_wrt (\<lambda>i j. ?sc ! j \<le> ?sc ! i) results"
    unfolding k by (intro sorted_wrt_take sorted_wrt_filter)
  then have "sorted_wrt (\<lambda>i j. round2 (?sc ! j * 100) \<le> round2 (?sc ! i * 100)) results"
    by (rule sorted_wrt_mono_rel [rotated]) (simp add: round2_mono)
  then show ?thesis
    by (simp add: r sorted_wrt_map recommendation_def)
qed

lemma take_filter_nth_iff:
  assumes "distinct xs" and "k < length xs"
  shows "xs ! k \<in> set (take n (filter P xs)) \<longleftrightarrow> P (xs ! k) \<and> length (filter P (take k xs)) < n"
proof -
  let ?A = "filter P (take k xs)" and ?B = "filter P (drop (Suc k) xs)"
  have split: "xs = take k xs @ xs ! k # drop (Suc k) xs"
    using assms(2) by (rule id_take_nth_drop)
  have "distinct (take k xs @ xs ! k # drop (Suc k) xs)"
    using assms(1) split by simp
  then have out: "xs ! k \<notin> set (take k xs)" "xs ! k \<notin> set (drop (Suc k) xs)"
    by auto
  show ?thesis
  proof (cases "P (xs ! k)")
    case False
    then have "xs ! k \<notin> set (filter P xs)" by simp
    then show ?thesis using False by (meson in_set_takeD)
  next
    case True
    have "filter P xs = filter P (take k xs @ xs ! k # drop (Suc k) xs)"
      using split by simp
    then have f: "filter P xs = ?A @ xs ! k # ?B"
      using True by simp
    show ?thesis
    proof (cases "length ?A < n")
      case lt: True
      then have "take n (filter P xs) = ?A @ take (n - length ?A) (xs ! k # ?B)"
        by (simp add: f)
      moreover obtain m where "n - length ?A = Suc m"
        using lt by (metis Suc_diff_Suc)
      ultimately show ?thesis using True lt by simp
    next
      case ge: False
      then have "take n (filter P xs) = take n ?A"
        by (simp add: f)
      then have "xs ! k \<notin> set (take n (filter P xs))"
        using out(1) by (auto dest: in_set_takeD)
      then show ?thesis using ge by simp
    qed
  qed
qed

lemma accepted_iff:
  assumes "1 \<le> top_n" and "argsort_spec (argsort L)"
    and "accepted L g idx top_n = Inr results"
    and "k < length (top_indices L (scores_of L g idx))"
  shows "top_indices L (scores_of L g idx) ! k \<in> set results \<longleftrightarrow>
           threshold L (scores_of L g idx) \<le> scores_of L g idx ! (top_indices L (scores_of L g idx) ! k) \<and>
           int (length (filter (\<lambda>i. threshold L (scores_of L g idx) \<le> scores_of L g idx ! i)
                          (take k (top_indices L (scores_of L g idx))))) < top_n"
proof -
  have d: "distinct (top_indices L (scores_of L g idx))"
    using assms(2) by (rule top_indices_distinct)
  have n: "\<And>m :: nat. m < nat top_n \<longleftrightarrow> int m < top_n"
    using assms(1) by auto
  show ?thesis
    unfolding accepted_positive [OF assms(1,3)]
    by (simp add: take_filter_nth_iff [OF d assms(4)] n)
qed

lemma accepted_before:
  assumes "distinct xs" and "k \<le> length xs"
  shows "length (filter (\<lambda>i. i \<in> set (take n (filter P xs))) (take k xs))
           = min n (length (filter P (take k xs)))"
proof -
  let ?A = "filter P (take k xs)" and ?R = "filter P (drop k xs)"
  have f: "filter P xs = ?A @ ?R"
    by (metis append_take_drop_id filter_append)
  have d: "distinct (take k xs @ drop k xs)"
    using assms(1) by simp
  then have disj: "set (take k xs) \<inter> set (drop k xs) = {}"
    by (simp only: distinct_append)
  have "take n (filter P xs) = take n ?A @ take (n - length ?A) ?R"
    by (simp add: f)
  then have "set (take n (filter P xs)) \<inter> set (take k xs)
               = (set (take n ?A) \<inter> set (take k xs)) \<union> (set (take (n - length ?A) ?R) \<inter> set (take k xs))"
    by auto
  moreover have "set (take n ?A) \<subseteq> set (take k xs)"
    using set_take_subset [of n ?A] by auto
  moreover have "set (take (n - length ?A) ?R) \<subseteq> set (drop k xs)"
    using set_take_subset [of "n - length ?A" ?R] by auto
  then have "set (take (n - length ?A) ?R) \<inter> set (take k xs) = {}"
    using disj by blast
  ultimately have s: "{i. i \<in> set (take n (filter P xs))} \<inter> set (take k xs) = set (take n ?A)"
    by auto
  have "length (filter (\<lambda>i. i \<in> set (take n (filter P xs))) (take k xs))
          = card ({i. i \<in> set (take n (filter P xs))} \<inter> set (take k xs))"
    using assms(1) by (simp add: distinct_length_filter)
  also have "\<dots> = card (set (take n ?A))"
    by (simp only: s)
  also have "\<dots> = length (take n ?A)"
    using assms(1) by (simp add: distinct_card)
  finally show ?thesis by (simp add: min.commute)
qed

lemma accepted_iff_before:
  assumes "1 \<le> top_n" and "argsort_spec (argsort L)"
    and "accepted L g idx top_n = Inr results"
    and "k < length (top_indices L (scores_of L g idx))"
  shows "top_indices L (scores_of L g idx) ! k \<in> set results \<longleftrightarrow>
           threshold L (scores_of L g idx) \<le> scores_of L g idx ! (top_indices L (scores_of L g idx) ! k) \<and>
           int (length (filter (\<lambda>i. i \<in> set results) (take k (top_indices L (scores_of L g idx))))) < top_n"
proof -
  let ?pool = "top_indices L (scores_of L g idx)"
  let ?P = "\<lambda>i. threshold L (scores_of L g idx) \<le> scores_of L g idx ! i"
  have d: "distinct ?pool"
    using assms(2) by (rule top_indices_distinct)
  have r: "results = take (nat top_n) (filter ?P ?pool)"
    using assms(1,3) by (rule accepted_positive)
  have "length (filter (\<lambda>i. i \<in> set results) (take k ?pool))
          = min (nat top_n) (length (filter ?P (take k ?pool)))"
    unfolding r using d assms(4) by (intro accepted_before) simp_all
  then have "int (length (filter (\<lambda>i. i \<in> set results) (take k ?pool))) < top_n
               \<longleftrightarrow> int (length (filter ?P (take k ?pool))) < top_n"
    using assms(1) by auto
  then show ?thesis
    using accepted_iff [OF assms] by simp
qed

text \<open>
  With one row of \<^verbatim>\<open>vectors\<close> per movie and the default index, no call raises.
\<close>

lemma robust_recommend_total:
  assumes "argsort_spec (argsort L)" and "length (vectors g) = length (movies g)"
    and "default_index (movies g)"
  shows "\<exists>recs. fst (robust_recommend L g movie_name top_n) = Inr recs"
proof (cases "fst (resolve L g movie_name)")
  case (Inl e)
  then show ?thesis
    using resolve_raises_nothing [of L g movie_name e] by simp
next
  case (Inr r)
  show ?thesis
  proof (cases r)
    case None
    with Inr show ?thesis
      by (cases "resolve L g movie_name") (simp add: robust_recommend_def)
  next
    case (Some idx)
    then obtain pos where p: "pos < length (movies g)" "idx = label (movies g ! pos)"
      using Inr resolve_is_label by blast
    then have i: "idx = int pos"
      using assms(3) by (simp add: default_index_label)
    from accepted_total [OF assms(1,2) p(1), of top_n] obtain results where
      "accepted L g pos top_n = Inr results" by blast
    then show ?thesis
      using Inr Some i p(1) assms(2)
      by (simp add: robust_recommend_resolved rank_def py_index_position)
  qed
qed

text \<open>
  Claim C1, as amended.  Line 153 sets the resolved row's score to zero and leaves the
  row in the array, so for a catalog of fewer than 30 rows the pool of line 155 is every
  row: it has as many members as the catalog, the resolved row among them with the score
  zero, and its size is not 30.
\<close>

theorem pool_is_whole_catalog:
  assumes "argsort_spec (argsort L)" and "idx < length (vectors g)" and "length (vectors g) < 30"
  shows "length (top_indices L (scores_of L g idx)) = length (vectors g) \<and>
         set (top_indices L (scores_of L g idx)) = {0..<length (vectors g)} \<and>
         idx \<in> set (top_indices L (scores_of L g idx)) \<and>
         scores_of L g idx ! idx = 0 \<and>
         length (top_indices L (scores_of L g idx)) \<noteq> 30"
proof -
  have len: "length (top_indices L (scores_of L g idx)) = length (vectors g)"
    using assms(3) by (simp add: top_indices_length [OF assms(1)] scores_of_length)
  have all: "set (top_indices L (scores_of L g idx)) = {0..<length (vectors g)}"
    using top_indices_all [OF assms(1), of "scores_of L g idx"] assms(3)
    by (simp add: scores_of_length)
  show ?thesis
    using len all assms(2,3) scores_of_self [OF assms(2), of L] by simp
qed

theorem pool_is_whole_catalog_witness:
  "argsort_spec (argsort example_lib) \<and> (0 :: nat) < length (vectors example_globals) \<and>
   length (vectors example_globals) < 30 \<and>
   length (top_indices example_lib (scores_of example_lib example_globals 0)) = 4 \<and>
   set (top_indices example_lib (scores_of example_lib example_globals 0)) = {0..<4} \<and>
   scores_of example_lib example_globals 0 ! 0 = 0"
proof -
  have a: "argsort_spec (argsort example_lib)"
    by (simp add: example_lib_def stable_argsort_spec)
  have i: "(0 :: nat) < length (vectors example_globals)"
    by (simp add: example_globals_def)
  have n: "length (vectors example_globals) < 30"
    by (simp add: example_globals_def)
  have "length (vectors example_globals) = 4"
    by (simp add: example_globals_def)
  with a i n pool_is_whole_catalog [OF a i n] show ?thesis by simp
qed

text \<open>
  The claim as it was stated fails on the four movies: the query \<^verbatim>\<open>Inception\<close>
  resolves to row 0, and the pool is all four rows, row 0 last.
\<close>

theorem pool_excludes_self_counterexample:
  "fst (resolve example_lib example_globals (PyStr ''Inception'')) = Inr (Some 0) \<and>
   length (movies example_globals) = 4 \<and>
   top_indices example_lib (scores_of example_lib example_globals 0) = [1, 2, 3, 0] \<and>
   \<not> (length (top_indices example_lib (scores_of example_lib example_globals 0)) = 4 - 1 \<and>
      0 \<notin> set (top_indices example_lib (scores_of example_lib example_globals 0)))"
proof -
  have "fst (resolve example_lib example_globals (PyStr ''Inception'')) = Inr (Some 0)"
    by code_simp
  moreover have "length (movies example_globals) = 4"
    by code_simp
  moreover have "top_indices example_lib (scores_of example_lib example_globals 0) = [1, 2, 3, 0]"
    by code_simp
  ultimately show ?thesis by simp
qed

text \<open>
  The score set to zero is the one at the position that the label of the matched row
  names.  On a frame with the default index that position is the matched row, and the
  row is never returned.
\<close>

lemma matched_row_not_returned:
  assumes "default_index (movies g)"
    and "fst (resolve L g movie_name) = Inr (Some idx)"
    and "fst (robust_recommend L g movie_name top_n) = Inr recs"
  shows "\<exists>pos results. pos < length (movies g) \<and> idx = int pos \<and>
           fst (resolve_title L (title_list g) (normalize_text movie_name))
             = Some (clean_title (movies g ! pos)) \<and>
           accepted L g pos top_n = Inr results \<and>
           recs = map (recommendation (movies g) (scores_of L g pos)) results \<and>
           pos \<notin> set results"
proof -
  from resolve_is_label [OF assms(2)] obtain pos where
    p: "pos < length (movies g)" "idx = label (movies g ! pos)"
    "fst (resolve_title L (title_list g) (normalize_text movie_name))
       = Some (clean_title (movies g ! pos))"
    by blast
  have i: "idx = int pos"
    using assms(1) p(1,2) by (simp add: default_index_label)
  have "rank L g idx top_n = Inr recs"
    using robust_recommend_resolved [OF assms(2), of top_n] assms(3) by simp
  from rank_Inr [OF this] obtain pos' results where
    q: "py_index (length (vectors g)) idx = Inr pos'" and
    a: "accepted L g pos' top_n = Inr results" and
    r: "recs = map (recommendation (movies g) (scores_of L g pos')) results"
    by blast
  have "pos' = pos"
    using q i by (auto simp: py_index_def split: if_splits)
  with p i a r accepted_not_self [OF a] show ?thesis by blast
qed


text \<open>
  Claim C7.  The scores of the returned list never increase from one recommendation to
  the next (and so from any recommendation to any later one).
\<close>

theorem recommendations_descending:
  assumes "argsort_spec (argsort L)"
    and "fst (robust_recommend L g movie_name top_n) = Inr recs"
  shows "sorted_wrt (\<lambda>a b. snd b \<le> snd a) recs \<and>
         (\<forall>k. Suc k < length recs \<longrightarrow> snd (recs ! Suc k) \<le> snd (recs ! k))"
proof -
  have s: "sorted_wrt (\<lambda>a b. snd b \<le> snd a) recs"
    using robust_recommend_cases [OF assms(2)] rank_descending [OF assms(1)] by auto
  then have "\<forall>k. Suc k < length recs \<longrightarrow> snd (recs ! Suc k) \<le> snd (recs ! k)"
    by (simp add: sorted_wrt_iff_nth_less)
  with s show ?thesis by simp
qed

theorem recommendations_descending_witness:
  "argsort_spec (argsort example_lib) \<and>
   fst (robust_recommend example_lib example_globals (PyStr ''Inception'') 10)
     = Inr [(''Interstellar'', 90), (''Batman'', 50)] \<and>
   sorted_wrt (\<lambda>a b. snd b \<le> snd a) [(''Interstellar'', 90 :: real), (''Batman'', 50)]"
proof -
  have a: "argsort_spec (argsort example_lib)"
    by (simp add: example_lib_def stable_argsort_spec)
  have r: "fst (robust_recommend example_lib example_globals (PyStr ''Inception'') 10)
             = Inr [(''Interstellar'', 90), (''Batman'', 50)]"
    by code_simp
  from a r recommendations_descending [OF a r] show ?thesis by simp
qed

text \<open>
  Claim C3.  The threshold is \<open>max (0.8 * mean) 0.12\<close> by the definition above.  The
  loop tests \<^verbatim>\<open>len(results) == top_n\<close> after the append, so with \<^verbatim>\<open>top_n = 0\<close> an
  accepted first entry takes the length past the limit and the test never holds again:
  on the four movies the query \<^verbatim>\<open>Inception\<close> with \<^verbatim>\<open>top_n = 0\<close> returns two
  recommendations, each accepted although no fewer than zero entries came before it.
  With \<^verbatim>\<open>top_n = 1\<close> the same query returns one.  For \<open>1 \<le> top_n\<close> the loop does what
  the claim says: lemmas \<open>accepted_positive\<close> and \<open>accepted_iff_before\<close>.
\<close>

theorem top_n_zero_is_no_limit:
  "accepted example_lib example_globals 0 0 = Inr [1, 2] \<and>
   fst (robust_recommend example_lib example_globals (PyStr ''Inception'') 0)
     = Inr [(''Interstellar'', 90), (''Batman'', 50)] \<and>
   threshold example_lib (scores_of example_lib example_globals 0) = 0.3 \<and>
   accepted example_lib example_globals 0 1 = Inr [1]"
proof -
  have "accepted example_lib example_globals 0 0 = Inr [1, 2]" by code_simp
  moreover have "fst (robust_recommend example_lib example_globals (PyStr ''Inception'') 0)
      = Inr [(''Interstellar'', 90), (''Batman'', 50)]"
    by code_simp
  moreover have "threshold example_lib (scores_of example_lib example_globals 0) = 0.3"
    by code_simp
  moreover have "accepted example_lib example_globals 0 1 = Inr [1]" by code_simp
  ultimately show ?thesis by simp
qed


end
